theory Spec2Isabelle
  imports Complex_Main
begin

section \<open>Data model of the workflow builder\<close>

text \<open>
  Nodes and edges are the objects the editor keeps in its \<open>nodes\<close> and \<open>edges\<close> state
  (arrays, so lists: order and duplicates are kept). Optional properties of the
  source (\<open>type?\<close>, \<open>data.label\<close>, \<open>data.enabled\<close>, ...) are \<open>option\<close> values, with
  \<open>None\<close> for \<open>undefined\<close>. Coordinates are numbers; they are modelled as exact reals,
  so the rounding of double arithmetic is not represented.
\<close>

datatype node_status = Idle | Running | Success | Error | Paused | Disabled | Warning

record position =
  pos_x :: real
  pos_y :: real

record node_data =
  label :: "string option"
  config :: "(string \<times> string) list"
  status :: node_status
  enabled :: "bool option"
  lastExecuted :: "nat option"
  executionTime :: "nat option"

record node =
  node_id :: string
  node_type :: "string option"
  position :: position
  data :: node_data

record edge =
  edge_id :: string
  source :: string
  target :: string
  sourceHandle :: "string option"
  targetHandle :: "string option"

datatype issue_type = IssueError | IssueWarning | IssueInfo

record ValidationIssue =
  issue_id :: string
  issue_type :: issue_type
  message :: string
  issue_nodeId :: "string option"
  issue_edgeId :: "string option"

section \<open>WorkflowValidation: the issue list\<close>

text \<open>\<open>node.data?.label || node.id\<close>: a missing or empty label falls back to the id.\<close>

definition label_or_id :: "node \<Rightarrow> string" where
  "label_or_id n =
     (case label (data n) of
        None \<Rightarrow> node_id n
      | Some l \<Rightarrow> if l = [] then node_id n else l)"

definition no_trigger_issue :: ValidationIssue where
  "no_trigger_issue =
     \<lparr>issue_id = ''no-trigger'', issue_type = IssueError,
      message = ''Workflow has no trigger nodes. Add at least one trigger to start execution.'',
      issue_nodeId = None, issue_edgeId = None\<rparr>"

definition isolated_issue :: "node \<Rightarrow> ValidationIssue" where
  "isolated_issue n =
     \<lparr>issue_id = ''isolated-'' @ node_id n, issue_type = IssueWarning,
      message = ''Node '' @ [CHR 0x22] @ label_or_id n @ [CHR 0x22]
                @ '' is not connected to the workflow.'',
      issue_nodeId = Some (node_id n), issue_edgeId = None\<rparr>"

definition condition_issue :: "node \<Rightarrow> ValidationIssue" where
  "condition_issue n =
     \<lparr>issue_id = ''condition-no-output-'' @ node_id n, issue_type = IssueWarning,
      message = ''Condition node '' @ [CHR 0x22] @ label_or_id n @ [CHR 0x22]
                @ '' has no outgoing connections.'',
      issue_nodeId = Some (node_id n), issue_edgeId = None\<rparr>"

definition cycle_issue :: "node \<Rightarrow> ValidationIssue" where
  "cycle_issue n =
     \<lparr>issue_id = ''cycle-'' @ node_id n, issue_type = IssueError,
      message = ''Circular dependency detected in workflow. This will cause infinite loops.'',
      issue_nodeId = Some (node_id n), issue_edgeId = None\<rparr>"

definition disabled_issue :: "node \<Rightarrow> ValidationIssue" where
  "disabled_issue n =
     \<lparr>issue_id = ''disabled-critical-'' @ node_id n, issue_type = IssueInfo,
      message = ''Critical node '' @ [CHR 0x22] @ label_or_id n @ [CHR 0x22]
                @ '' is disabled.'',
      issue_nodeId = Some (node_id n), issue_edgeId = None\<rparr>"

subsection \<open>The depth-first search \<open>hasCycle\<close>\<close>

text \<open>
  \<open>hasCycle\<close> is a closure over the two mutable sets \<open>visited\<close> and \<open>recursionStack\<close>;
  the model threads them as a pair and returns them with the answer. Where the source
  returns \<open>true\<close> it leaves the recursion stack as it is (no \<open>delete\<close>), and so does the
  model. \<open>hasCycle_edges\<close> is the \<open>for (const edge of outgoingEdges)\<close> loop.
\<close>

type_synonym dfs_state = "string set \<times> string set"

function hasCycle :: "edge list \<Rightarrow> string \<Rightarrow> dfs_state \<Rightarrow> bool \<times> dfs_state"
  and hasCycle_edges :: "edge list \<Rightarrow> edge list \<Rightarrow> dfs_state \<Rightarrow> bool \<times> dfs_state"
where
  "hasCycle es v (visited, recursionStack) =
     (if v \<in> recursionStack then (True, (visited, recursionStack))
      else if v \<in> visited then (False, (visited, recursionStack))
      else (case hasCycle_edges es (filter (\<lambda>e. source e = v) es)
                   (insert v visited, insert v recursionStack) of
              (True, s') \<Rightarrow> (True, s')
            | (False, (visited', recursionStack')) \<Rightarrow>
                (False, (visited', recursionStack' - {v}))))"
| "hasCycle_edges es [] s = (False, s)"
| "hasCycle_edges es (e # rest) s =
     (case hasCycle es (target e) s of
        (True, s') \<Rightarrow> (True, s')
      | (False, s') \<Rightarrow> hasCycle_edges es rest s')"
  by pat_completeness auto

definition ids_of :: "edge list \<Rightarrow> string set" where
  "ids_of es = set (map source es) \<union> set (map target es)"

lemma finite_ids_of: "finite (ids_of es)"
  by (simp add: ids_of_def)

lemma visited_grows_dom:
  "hasCycle_hasCycle_edges_dom (Inl (es, v, s)) \<Longrightarrow> fst s \<subseteq> fst (snd (hasCycle es v s))"
  "hasCycle_hasCycle_edges_dom (Inr (es, rest, s)) \<Longrightarrow>
     fst s \<subseteq> fst (snd (hasCycle_edges es rest s))"
proof (induction es v s and es rest s rule: hasCycle_hasCycle_edges.pinduct)
  case (1 es v vis stk)
  then show ?case
    by (auto simp: hasCycle.psimps split: prod.splits bool.splits)
next
  case (2 es s)
  then show ?case by (simp add: hasCycle_edges.psimps)
next
  case (3 es e rest s)
  obtain b s' where r: "hasCycle es (target e) s = (b, s')"
    by (cases "hasCycle es (target e) s") auto
  have a: "fst s \<subseteq> fst s'" using 3(2) r by simp
  show ?case
  proof (cases b)
    case True
    then show ?thesis using 3(1) r a by (simp add: hasCycle_edges.psimps)
  next
    case False
    have "fst s' \<subseteq> fst (snd (hasCycle_edges es rest s'))"
      using 3(3)[of b s'] r False by simp
    then show ?thesis using 3(1) r a False by (auto simp: hasCycle_edges.psimps)
  qed
qed

text \<open>
  Termination: every call that goes deeper adds a new id to \<open>visited\<close>, and the ids that
  can ever be added are the start node and the endpoints of the edges.
\<close>

termination hasCycle
proof (relation "inv_image (less_than <*lex*> less_than)
    (\<lambda>a. case a of
        Inl (es, v, (vis, stk)) \<Rightarrow> (card (insert v (ids_of es) - vis), 0)
      | Inr (es, rest, (vis, stk)) \<Rightarrow>
          (card ((ids_of es \<union> set (map target rest)) - vis), Suc (length rest)))",
    goal_cases)
  case 1
  then show ?case by (intro wf_inv_image wf_lex_prod wf_less_than)
next
  case (2 es v vis stk)
  have sub: "set (map target (filter (\<lambda>e. source e = v) es)) \<subseteq> ids_of es"
    by (auto simp: ids_of_def)
  then have eq: "(ids_of es \<union> set (map target (filter (\<lambda>e. source e = v) es))) - insert v vis
      = ids_of es - insert v vis" by blast
  have "ids_of es - insert v vis \<subset> insert v (ids_of es) - vis"
    using 2 by blast
  moreover have "finite (insert v (ids_of es) - vis)" by (simp add: finite_ids_of)
  ultimately have "card (ids_of es - insert v vis) < card (insert v (ids_of es) - vis)"
    by (rule psubset_card_mono[rotated])
  then show ?case using eq by simp
next
  case (3 es e rest s)
  obtain vis stk where s: "s = (vis, stk)" by (cases s) auto
  have "card (insert (target e) (ids_of es) - vis)
        \<le> card ((ids_of es \<union> set (map target (e # rest))) - vis)"
    by (rule card_mono) (auto simp: finite_ids_of)
  then show ?case using s by auto
next
  case (4 es e rest s x y)
  obtain vis stk where s: "s = (vis, stk)" by (cases s) auto
  obtain vis' stk' where y: "y = (vis', stk')" by (cases y) auto
  have "vis \<subseteq> vis'" using visited_grows_dom(1)[of es "target e" s] 4 s y
    by (metis fst_conv snd_conv)
  then have "card ((ids_of es \<union> set (map target rest)) - vis')
        \<le> card ((ids_of es \<union> set (map target (e # rest))) - vis)"
    by (intro card_mono) (auto simp: finite_ids_of)
  then show ?case using s y by auto
qed

text \<open>
  The loop \<open>for (const node of nodes)\<close>: the first node whose search answers \<open>true\<close>
  yields the one cycle issue and the loop breaks.
\<close>

fun cycle_scan :: "edge list \<Rightarrow> node list \<Rightarrow> dfs_state \<Rightarrow> ValidationIssue list" where
  "cycle_scan es [] s = []"
| "cycle_scan es (n # ns) s =
     (case hasCycle es (node_id n) s of
        (True, s') \<Rightarrow> [cycle_issue n]
      | (False, s') \<Rightarrow> cycle_scan es ns s')"

subsection \<open>The five checks, in the order of the source\<close>

definition validate :: "node list \<Rightarrow> edge list \<Rightarrow> ValidationIssue list" where
  "validate nodes edges =
     (let triggerNodes = filter (\<lambda>n. node_type n = Some ''trigger'') nodes;
          noTrigger = (if length triggerNodes = 0 then [no_trigger_issue] else []);
          connectedNodeIds = set (map source edges @ map target edges);
          isolated = map isolated_issue
            (filter (\<lambda>n. node_id n \<notin> connectedNodeIds \<and> node_type n \<noteq> Some ''trigger'') nodes);
          deadConditions = map condition_issue
            (filter (\<lambda>n. length (filter (\<lambda>e. source e = node_id n) edges) = 0)
               (filter (\<lambda>n. node_type n = Some ''condition'') nodes));
          cycles = cycle_scan edges nodes ({}, {});
          disabledCritical = map disabled_issue
            (filter (\<lambda>n. enabled (data n) = Some False
                        \<and> (case node_type n of None \<Rightarrow> [] | Some t \<Rightarrow> t)
                            \<in> set [''trigger'', ''condition'']) nodes)
      in noTrigger @ isolated @ deadConditions @ cycles @ disabledCritical)"

definition errorCount :: "ValidationIssue list \<Rightarrow> nat" where
  "errorCount issues = length (filter (\<lambda>i. issue_type i = IssueError) issues)"

definition warningCount :: "ValidationIssue list \<Rightarrow> nat" where
  "warningCount issues = length (filter (\<lambda>i. issue_type i = IssueWarning) issues)"

definition infoCount :: "ValidationIssue list \<Rightarrow> nat" where
  "infoCount issues = length (filter (\<lambda>i. issue_type i = IssueInfo) issues)"

section \<open>WorkflowBuilder: the editor state\<close>

text \<open>
  The component keeps its state in \<open>useState\<close> cells; the model collects them in one
  record and every handler maps the state before the event to the state after it.
  Toasts and console output are presentation and are left out.
\<close>

datatype log_level = LogDebug | LogInfo | LogWarn | LogError
datatype execution_mode = Parallel | Sequential
datatype error_handling = Stop | Continue | Retry
datatype log_type = EntryInfo | EntryError | EntrySuccess | EntryWarning

record workflow_settings =
  name :: string
  description :: string
  timeout :: nat
  retryAttempts :: nat
  enableLogging :: bool
  logLevel :: log_level
  enableValidation :: bool
  autoSave :: bool
  executionMode :: execution_mode
  errorHandling :: error_handling

record log_entry =
  log_id :: string
  log_message :: string
  log_type :: log_type
  timestamp :: nat
  log_nodeId :: "string option"

type_synonym json = string

record exec_result =
  result_output :: json
  result_executionTime :: nat

record snapshot =
  snap_nodes :: "node list"
  snap_edges :: "edge list"

record builder =
  nodes :: "node list"
  edges :: "edge list"
  selectedNode :: "node option"
  selectedNodes :: "string list"
  isExecuting :: bool
  executionResults :: "(string \<times> exec_result) list"
  executionLog :: "log_entry list"
  executionCount :: nat
  executionFlow :: "string list"
  history :: "snapshot list"
  historyIndex :: int
  workflowSettings :: workflow_settings
  currentExecutingNode :: "string option"
  totalNodes :: nat
  completedNodes :: nat

text \<open>The initial values of the \<open>useState\<close> cells; the initial graph is a parameter.\<close>

definition initial_state :: "node list \<Rightarrow> edge list \<Rightarrow> builder" where
  "initial_state initialNodes initialEdges =
     \<lparr>nodes = initialNodes, edges = initialEdges,
      selectedNode = None, selectedNodes = [],
      isExecuting = False, executionResults = [], executionLog = [],
      executionCount = 0, executionFlow = [],
      history = [], historyIndex = -1,
      workflowSettings =
        \<lparr>name = ''My Workflow'', description = ''A powerful automation workflow'',
         timeout = 300, retryAttempts = 3, enableLogging = True, logLevel = LogInfo,
         enableValidation = True, autoSave = True, executionMode = Sequential,
         errorHandling = Stop\<rparr>,
      currentExecutingNode = None, totalNodes = 0, completedNodes = 0\<rparr>"

subsection \<open>JavaScript helpers\<close>

text \<open>\<open>xs.slice(0, k)\<close>: a negative \<open>k\<close> counts from the end.\<close>

definition slice_to :: "int \<Rightarrow> 'a list \<Rightarrow> 'a list" where
  "slice_to k xs =
     (if k < 0 then take (nat (int (length xs) + k)) xs else take (nat k) xs)"

text \<open>\<open>xs.slice(-n)\<close> for a positive \<open>n\<close>: the last \<open>n\<close> elements, all of them if there are fewer.\<close>

definition slice_last :: "nat \<Rightarrow> 'a list \<Rightarrow> 'a list" where
  "slice_last n xs = drop (length xs - n) xs"

text \<open>\<open>xs[i]\<close>: \<open>undefined\<close> (here \<open>None\<close>) outside the array.\<close>

definition js_index :: "'a list \<Rightarrow> int \<Rightarrow> 'a option" where
  "js_index xs i = (if 0 \<le> i \<and> i < int (length xs) then Some (xs ! nat i) else None)"

text \<open>An optional string inside a template literal: \<open>undefined\<close> prints as such.\<close>

definition template_str :: "string option \<Rightarrow> string" where
  "template_str s = (case s of None \<Rightarrow> ''undefined'' | Some t \<Rightarrow> t)"

text \<open>The decimal digits of a non-negative integer, as a template literal prints it.\<close>

fun string_of_nat :: "nat \<Rightarrow> string" where
  "string_of_nat n =
     (if n < 10 then [''0123456789'' ! n]
      else string_of_nat (n div 10) @ [''0123456789'' ! (n mod 10)])"

declare string_of_nat.simps [simp del]

datatype js_error = TypeError

subsection \<open>History: \<open>saveToHistory\<close>, \<open>undo\<close>, \<open>redo\<close>\<close>

text \<open>
  \<open>saveToHistory\<close> takes no argument: it pushes the \<open>nodes\<close> and \<open>edges\<close> and cuts at the
  \<open>historyIndex\<close> that its closure captured at the render that created it, while the two
  setters work on the latest \<open>history\<close> and \<open>historyIndex\<close> (functional updates). The
  captured values are the record \<open>closure\<close>; the state is the latest one.
\<close>

record closure =
  c_nodes :: "node list"
  c_edges :: "edge list"
  c_historyIndex :: int

definition saveToHistory :: "closure \<Rightarrow> builder \<Rightarrow> builder" where
  "saveToHistory cl st =
     st\<lparr>history :=
          (let newHistory = slice_to (c_historyIndex cl + 1) (history st)
                              @ [\<lparr>snap_nodes = c_nodes cl, snap_edges = c_edges cl\<rparr>]
           in slice_last 50 newHistory),
        historyIndex := historyIndex st + 1\<rparr>"

text \<open>The closure of the render that shows state \<open>st\<close>.\<close>

definition render_closure :: "builder \<Rightarrow> closure" where
  "render_closure st =
     \<lparr>c_nodes = nodes st, c_edges = edges st, c_historyIndex = historyIndex st\<rparr>"

text \<open>
  \<open>undo\<close> and \<open>redo\<close> read \<open>history[historyIndex \<plusminus> 1]\<close>; reading \<open>.nodes\<close> of an
  \<open>undefined\<close> entry throws a \<open>TypeError\<close> before any setter runs.
\<close>

definition undo :: "builder \<Rightarrow> js_error + builder" where
  "undo st =
     (if historyIndex st > 0 then
        (case js_index (history st) (historyIndex st - 1) of
           None \<Rightarrow> Inl TypeError
         | Some previousState \<Rightarrow>
             Inr (st\<lparr>nodes := snap_nodes previousState,
                     edges := snap_edges previousState,
                     historyIndex := historyIndex st - 1\<rparr>))
      else Inr st)"

definition redo :: "builder \<Rightarrow> js_error + builder" where
  "redo st =
     (if historyIndex st < int (length (history st)) - 1 then
        (case js_index (history st) (historyIndex st + 1) of
           None \<Rightarrow> Inl TypeError
         | Some nextState \<Rightarrow>
             Inr (st\<lparr>nodes := snap_nodes nextState,
                     edges := snap_edges nextState,
                     historyIndex := historyIndex st + 1\<rparr>))
      else Inr st)"

text \<open>One sequence of events after another; an exception ends both.\<close>

definition and_then ::
  "js_error + builder \<Rightarrow> (builder \<Rightarrow> js_error + builder) \<Rightarrow> js_error + builder" where
  "and_then r f = (case r of Inl e \<Rightarrow> Inl e | Inr st \<Rightarrow> f st)"

text \<open>Pressing the same button \<open>k\<close> times; an exception ends the sequence.\<close>

fun repeat :: "nat \<Rightarrow> (builder \<Rightarrow> js_error + builder) \<Rightarrow> builder \<Rightarrow> js_error + builder" where
  "repeat 0 f st = Inr st"
| "repeat (Suc k) f st = (case f st of Inl e \<Rightarrow> Inl e | Inr st' \<Rightarrow> repeat k f st')"

subsection \<open>Editing the graph\<close>

record connection =
  c_source :: string
  c_target :: string
  c_sourceHandle :: "string option"
  c_targetHandle :: "string option"

text \<open>
  \<open>onConnect\<close> hands the connection to \<open>addEdge\<close> of the flow library, which is not part
  of the repository and is a parameter here. Its dependency list names neither
  \<open>saveToHistory\<close> nor the state, so the \<open>saveToHistory\<close> it calls is the one of the first
  render, with that render's closure \<open>cl\<close>.
\<close>

definition onConnect ::
  "(connection \<Rightarrow> edge list \<Rightarrow> edge list) \<Rightarrow> closure \<Rightarrow> connection \<Rightarrow> builder \<Rightarrow> builder" where
  "onConnect addEdge cl params st = saveToHistory cl (st\<lparr>edges := addEdge params (edges st)\<rparr>)"

text \<open>
  The behaviour of the library's \<open>addEdge\<close> as its documentation gives it, to instantiate
  the parameter: nothing is added without a source and a target or when the same
  connection exists, otherwise the new edge is appended.
\<close>

definition getEdgeId :: "connection \<Rightarrow> string" where
  "getEdgeId c =
     ''xy-edge__'' @ c_source c @ (case c_sourceHandle c of None \<Rightarrow> [] | Some h \<Rightarrow> h)
       @ ''-'' @ c_target c @ (case c_targetHandle c of None \<Rightarrow> [] | Some h \<Rightarrow> h)"

definition same_handle :: "string option \<Rightarrow> string option \<Rightarrow> bool" where
  "same_handle a b \<longleftrightarrow> a = b \<or> (a \<in> {None, Some []} \<and> b \<in> {None, Some []})"

definition connectionExists :: "edge \<Rightarrow> edge list \<Rightarrow> bool" where
  "connectionExists e es =
     list_ex (\<lambda>el. source el = source e \<and> target el = target e
                 \<and> same_handle (sourceHandle el) (sourceHandle e)
                 \<and> same_handle (targetHandle el) (targetHandle e)) es"

definition library_addEdge :: "connection \<Rightarrow> edge list \<Rightarrow> edge list" where
  "library_addEdge c es =
     (if c_source c = [] \<or> c_target c = [] then es
      else
        (let e = \<lparr>edge_id = getEdgeId c, source = c_source c, target = c_target c,
                  sourceHandle = c_sourceHandle c, targetHandle = c_targetHandle c\<rparr>
         in if connectionExists e es then es else es @ [e]))"

text \<open>
  The handlers below are rebuilt with every render, so the \<open>saveToHistory\<close> they call has
  the closure of the render that shows the state \<open>st\<close> the handler starts from: the graph it
  pushes is the one before the handler's own update.
\<close>

definition onDeleteNode :: "string \<Rightarrow> builder \<Rightarrow> builder" where
  "onDeleteNode nodeId st =
     saveToHistory (render_closure st)
       (st\<lparr>nodes := filter (\<lambda>n. node_id n \<noteq> nodeId) (nodes st),
           edges := filter (\<lambda>e. source e \<noteq> nodeId \<and> target e \<noteq> nodeId) (edges st),
           selectedNode :=
             (case selectedNode st of
                None \<Rightarrow> None
              | Some n \<Rightarrow> if node_id n = nodeId then None else Some n),
           selectedNodes := filter (\<lambda>i. i \<noteq> nodeId) (selectedNodes st)\<rparr>)"

text \<open>\<open>now\<close> is the value of \<open>Date.now()\<close> at the call.\<close>

definition duplicate_of :: "nat \<Rightarrow> node \<Rightarrow> node" where
  "duplicate_of now nodeToDuplicate =
     nodeToDuplicate
       \<lparr>node_id := template_str (node_type nodeToDuplicate) @ ''-'' @ string_of_nat now,
        position := \<lparr>pos_x = pos_x (position nodeToDuplicate) + 50,
                     pos_y = pos_y (position nodeToDuplicate) + 50\<rparr>,
        data := (data nodeToDuplicate)
                  \<lparr>label := Some (template_str (label (data nodeToDuplicate)) @ '' (Copy)''),
                   status := Idle\<rparr>\<rparr>"

definition onDuplicateNode :: "nat \<Rightarrow> string \<Rightarrow> builder \<Rightarrow> builder" where
  "onDuplicateNode now nodeId st =
     (case find (\<lambda>n. node_id n = nodeId) (nodes st) of
        None \<Rightarrow> st
      | Some nodeToDuplicate \<Rightarrow>
          saveToHistory (render_closure st)
            (st\<lparr>nodes := nodes st @ [duplicate_of now nodeToDuplicate]\<rparr>))"

text \<open>
  \<open>onApplyTemplate\<close> installs the nodes and edges of a template; the import of a file
  passes the parsed document to it as it is.
\<close>

record template =
  t_name :: string
  t_nodes :: "node list"
  t_edges :: "edge list"

definition onApplyTemplate :: "template \<Rightarrow> builder \<Rightarrow> builder" where
  "onApplyTemplate t st =
     saveToHistory (render_closure st)
       (st\<lparr>nodes := t_nodes t, edges := t_edges t, selectedNode := None\<rparr>)"

definition deleteSelectedNodes :: "builder \<Rightarrow> builder" where
  "deleteSelectedNodes st =
     saveToHistory (render_closure st)
       (st\<lparr>nodes := filter (\<lambda>n. node_id n \<notin> set (selectedNodes st)) (nodes st),
           edges := filter (\<lambda>e. source e \<notin> set (selectedNodes st)
                               \<and> target e \<notin> set (selectedNodes st)) (edges st),
           selectedNodes := [],
           selectedNode := None\<rparr>)"

subsection \<open>Running, simulating and clearing\<close>

text \<open>
  The engine (\<open>workflowEngine\<close>) is a module of its own that is not among the sources.
  It is a parameter: a state \<open>'e\<close> and the operations the component calls, each returning
  the engine's next state; a rejected promise is \<open>Inl\<close> with its message. The engine gets
  only the arguments of the call, never the component's state or its setters.
\<close>

datatype run_outcome = ValidationFailed | ExecutionComplete | ExecutionFailed string

definition executeWorkflow ::
  "('e \<Rightarrow> node list \<Rightarrow> edge list \<Rightarrow> (string + (string \<times> exec_result) list) \<times> 'e)
   \<Rightarrow> ('e \<Rightarrow> log_entry list) \<Rightarrow> builder \<times> 'e \<Rightarrow> run_outcome \<times> builder \<times> 'e" where
  "executeWorkflow engineExecuteWorkflow getExecutionLog p =
     (case p of (st, eng) \<Rightarrow>
        if enableValidation (workflowSettings st)
           \<and> length (filter (\<lambda>n. node_type n = Some ''trigger''
                                  \<and> enabled (data n) \<noteq> Some False) (nodes st)) = 0
        then (ValidationFailed, st, eng)
        else
          (let enabledNodes = filter (\<lambda>n. enabled (data n) \<noteq> Some False) (nodes st);
               st1 = st\<lparr>isExecuting := True, executionResults := [],
                        executionCount := executionCount st + 1,
                        currentExecutingNode := None, completedNodes := 0,
                        totalNodes := length enabledNodes\<rparr>
           in case engineExecuteWorkflow eng (nodes st) (edges st) of
                (Inr results, eng') \<Rightarrow>
                  (ExecutionComplete,
                   st1\<lparr>executionResults := results, executionLog := getExecutionLog eng',
                       isExecuting := False, currentExecutingNode := None\<rparr>,
                   eng')
              | (Inl errorMessage, eng') \<Rightarrow>
                  (ExecutionFailed errorMessage,
                   st1\<lparr>isExecuting := False, currentExecutingNode := None\<rparr>,
                   eng')))"

datatype sim_result = SimNull | SimResult exec_result | SimFailed string json

definition handleSimulateNode ::
  "('e \<Rightarrow> string \<Rightarrow> string \<Rightarrow> json \<Rightarrow> (string \<times> string) list \<Rightarrow> (string + exec_result) \<times> 'e)
   \<Rightarrow> string \<Rightarrow> json \<Rightarrow> builder \<times> 'e \<Rightarrow> sim_result \<times> builder \<times> 'e" where
  "handleSimulateNode engineExecuteNode nodeId inputData p =
     (case p of (st, eng) \<Rightarrow>
        (case find (\<lambda>n. node_id n = nodeId) (nodes st) of
           None \<Rightarrow> (SimNull, st, eng)
         | Some node \<Rightarrow>
             (case engineExecuteNode eng nodeId
                     (case node_type node of
                        None \<Rightarrow> ''action''
                      | Some t \<Rightarrow> if t = [] then ''action'' else t)
                     inputData (config (data node)) of
                (Inr result, eng') \<Rightarrow> (SimResult result, st, eng')
              | (Inl err, eng') \<Rightarrow> (SimFailed err inputData, st, eng'))))"

definition clearExecution :: "('e \<Rightarrow> 'e) \<Rightarrow> builder \<times> 'e \<Rightarrow> builder \<times> 'e" where
  "clearExecution clearExecutionData p =
     (case p of (st, eng) \<Rightarrow>
        (st\<lparr>executionResults := [], executionLog := [], executionFlow := [],
            currentExecutingNode := None, completedNodes := 0, totalNodes := 0,
            nodes := map (\<lambda>n. n\<lparr>data := (data n)\<lparr>status := Idle, lastExecuted := None,
                                                executionTime := None\<rparr>\<rparr>) (nodes st)\<rparr>,
         clearExecutionData eng))"

section \<open>Notions used in the statements\<close>

subsection \<open>Issues and graphs\<close>

text \<open>
  The issues carry no tag for the rule that made them; the rule is read off the severity
  and the prefix of the issue id, which no two rules share.
\<close>

definition is_isolation_issue :: "ValidationIssue \<Rightarrow> bool" where
  "is_isolation_issue i \<longleftrightarrow> issue_type i = IssueWarning \<and> take 9 (issue_id i) = ''isolated-''"

definition is_cycle_issue :: "ValidationIssue \<Rightarrow> bool" where
  "is_cycle_issue i \<longleftrightarrow> issue_type i = IssueError \<and> take 6 (issue_id i) = ''cycle-''"

text \<open>A node that is not a trigger and is neither source nor target of an edge.\<close>

definition isolated :: "edge list \<Rightarrow> node \<Rightarrow> bool" where
  "isolated es n \<longleftrightarrow>
     node_type n \<noteq> Some ''trigger''
     \<and> node_id n \<notin> set (map source es) \<and> node_id n \<notin> set (map target es)"

text \<open>The edges as a relation on ids, and a directed cycle in it.\<close>

definition edge_rel :: "edge list \<Rightarrow> (string \<times> string) set" where
  "edge_rel es = set (map (\<lambda>e. (source e, target e)) es)"

definition has_cycle :: "edge list \<Rightarrow> bool" where
  "has_cycle es \<longleftrightarrow> (\<exists>v. (v, v) \<in> (edge_rel es)\<^sup>+)"

text \<open>The invariant of the data model: both ends of every edge are nodes of the graph.\<close>

definition endpoints_present :: "node list \<Rightarrow> edge list \<Rightarrow> bool" where
  "endpoints_present ns es \<longleftrightarrow>
     list_all (\<lambda>e. source e \<in> set (map node_id ns) \<and> target e \<in> set (map node_id ns)) es"

subsection \<open>The invariant of the search\<close>

text \<open>
  A cycle can be reached from \<open>v\<close>. The finished ids are the visited ones that are no
  longer on the recursion stack: the invariant says that edges from finished ids lead to
  finished ids and that no finished id lies on a cycle.
\<close>

definition cycle_from :: "edge list \<Rightarrow> string \<Rightarrow> bool" where
  "cycle_from es v \<longleftrightarrow> (\<exists>w. (v, w) \<in> (edge_rel es)\<^sup>* \<and> (w, w) \<in> (edge_rel es)\<^sup>+)"

definition finished :: "dfs_state \<Rightarrow> string set" where
  "finished s = fst s - snd s"

definition dfs_inv :: "edge list \<Rightarrow> dfs_state \<Rightarrow> bool" where
  "dfs_inv es s \<longleftrightarrow>
     snd s \<subseteq> fst s
     \<and> edge_rel es `` finished s \<subseteq> finished s
     \<and> (\<forall>u \<in> finished s. (u, u) \<notin> (edge_rel es)\<^sup>+)"

definition dfs_post :: "edge list \<Rightarrow> dfs_state \<Rightarrow> dfs_state \<Rightarrow> bool" where
  "dfs_post es s s' \<longleftrightarrow> dfs_inv es s' \<and> snd s' = snd s \<and> fst s \<subseteq> fst s'"

subsection \<open>History, run gate and connections\<close>

text \<open>The graph on display, and a state that displays the history entry at its index.\<close>

definition shown :: "builder \<Rightarrow> snapshot" where
  "shown st = \<lparr>snap_nodes = nodes st, snap_edges = edges st\<rparr>"

definition in_sync :: "builder \<Rightarrow> bool" where
  "in_sync st \<longleftrightarrow> 0 \<le> historyIndex st \<and> historyIndex st < int (length (history st))
                 \<and> shown st = history st ! nat (historyIndex st)"

text \<open>The states in which the successive deletions of a sequence start.\<close>

fun renders :: "string list \<Rightarrow> builder \<Rightarrow> builder list" where
  "renders [] st = []"
| "renders (i # ids) st = st # renders ids (onDeleteNode i st)"

text \<open>A run is blocked when \<open>executeWorkflow\<close> returns at its validation guard.\<close>

definition run_blocked :: "run_outcome \<times> builder \<times> 'e \<Rightarrow> bool" where
  "run_blocked r \<longleftrightarrow> fst r = ValidationFailed"

definition enabled_trigger :: "node \<Rightarrow> bool" where
  "enabled_trigger n \<longleftrightarrow> node_type n = Some ''trigger'' \<and> enabled (data n) \<noteq> Some False"

text \<open>
  What is asked of the library's \<open>addEdge\<close>: every edge of its result was there before
  or joins the source and the target of the connection.
\<close>

definition adds_only_connection ::
  "(connection \<Rightarrow> edge list \<Rightarrow> edge list) \<Rightarrow> connection \<Rightarrow> edge list \<Rightarrow> bool" where
  "adds_only_connection addEdge params es \<longleftrightarrow>
     list_all (\<lambda>e. e \<in> set es \<or> (source e = c_source params \<and> target e = c_target params))
       (addEdge params es)"

section \<open>Example graphs and states\<close>

text \<open>
  A node and an edge with the fields the editor and the library give to new ones, an
  engine that completes at once, and the small graphs of the examples below.
\<close>

definition mk_node :: "string \<Rightarrow> string \<Rightarrow> node" where
  "mk_node i t =
     \<lparr>node_id = i, node_type = Some t, position = \<lparr>pos_x = 0, pos_y = 0\<rparr>,
      data = \<lparr>label = Some (t @ '' Node''), config = [], status = Idle, enabled = Some True,
              lastExecuted = None, executionTime = None\<rparr>\<rparr>"

definition disabled_node :: "string \<Rightarrow> string \<Rightarrow> node" where
  "disabled_node i t = (mk_node i t)\<lparr>data := (data (mk_node i t))\<lparr>enabled := Some False\<rparr>\<rparr>"

definition mk_edge :: "string \<Rightarrow> string \<Rightarrow> edge" where
  "mk_edge a b =
     \<lparr>edge_id = ''xy-edge__'' @ a @ ''-'' @ b, source = a, target = b,
      sourceHandle = None, targetHandle = None\<rparr>"

definition four_nodes :: "node list" where
  "four_nodes =
     [mk_node ''a'' ''trigger'', mk_node ''b'' ''action'', mk_node ''c'' ''action'',
      mk_node ''d'' ''email'']"

definition sixty_nodes :: "node list" where
  "sixty_nodes = map (\<lambda>k. mk_node (string_of_nat k) ''action'') [0..<60]"

definition sixty_ids :: "string list" where
  "sixty_ids = map string_of_nat [0..<60]"

text \<open>
  Three deletions in the editor that starts with \<open>four_nodes\<close>, and the state after one
  undo; \<open>first_render\<close> is the closure of the render that showed the initial state.
\<close>

definition deleted_three :: builder where
  "deleted_three = fold onDeleteNode [''a'', ''b'', ''c''] (initial_state four_nodes [])"

definition undone_once :: builder where
  "undone_once = projr (undo deleted_three)"

definition first_render :: closure where
  "first_render = render_closure (initial_state four_nodes [])"

definition connect_c_d :: connection where
  "connect_c_d = \<lparr>c_source = ''c'', c_target = ''d'', c_sourceHandle = None, c_targetHandle = None\<rparr>"

definition instant_engine ::
  "unit \<Rightarrow> node list \<Rightarrow> edge list \<Rightarrow> (string + (string \<times> exec_result) list) \<times> unit" where
  "instant_engine eng ns es = (Inr [], eng)"

definition empty_log :: "unit \<Rightarrow> log_entry list" where
  "empty_log eng = []"

definition two_nodes :: builder where
  "two_nodes =
     (initial_state [mk_node ''a'' ''trigger'', mk_node ''b'' ''action''] [mk_edge ''a'' ''b''])
       \<lparr>selectedNodes := [''b'']\<rparr>"

definition connect_b_a :: connection where
  "connect_b_a = \<lparr>c_source = ''b'', c_target = ''a'', c_sourceHandle = None, c_targetHandle = None\<rparr>"

definition connect_a_b :: connection where
  "connect_a_b = \<lparr>c_source = ''a'', c_target = ''b'', c_sourceHandle = None, c_targetHandle = None\<rparr>"

definition sound_template :: template where
  "sound_template =
     \<lparr>t_name = ''pair'', t_nodes = [mk_node ''s'' ''trigger'', mk_node ''t'' ''email''],
      t_edges = [mk_edge ''s'' ''t'']\<rparr>"

definition dangling_template :: template where
  "dangling_template = \<lparr>t_name = ''imported'', t_nodes = [], t_edges = [mk_edge ''a'' ''b'']\<rparr>"

definition one_action :: builder where
  "one_action = initial_state [mk_node ''action-1'' ''action''] []"

definition clashing :: builder where
  "clashing = initial_state [mk_node ''action-1700000000000'' ''action''] []"

section \<open>Properties of the validation\<close>

lemma cycle_scan_cases:
  "cycle_scan es ns s = [] \<or> (\<exists>n \<in> set ns. cycle_scan es ns s = [cycle_issue n])"
  by (induction ns arbitrary: s) (auto split: prod.splits bool.splits)

lemma filter_isolation_cycle_scan: "filter is_isolation_issue (cycle_scan es ns s) = []"
  using cycle_scan_cases[of es ns s]
  by (auto simp: is_isolation_issue_def cycle_issue_def)

lemma filter_isolation_isolated:
  "filter is_isolation_issue (map isolated_issue ns) = map isolated_issue ns"
  by (induction ns) (simp_all add: is_isolation_issue_def isolated_issue_def)

lemma filter_isolation_condition:
  "filter is_isolation_issue (map condition_issue ns) = []"
  by (induction ns) (simp_all add: is_isolation_issue_def condition_issue_def)

lemma filter_isolation_disabled:
  "filter is_isolation_issue (map disabled_issue ns) = []"
  by (induction ns) (simp_all add: is_isolation_issue_def disabled_issue_def)

lemma isolation_warnings_eq:
  "filter is_isolation_issue (validate ns es) = map isolated_issue (filter (isolated es) ns)"
proof -
  have p: "(\<lambda>n. node_id n \<notin> set (map source es @ map target es)
                 \<and> node_type n \<noteq> Some ''trigger'') = isolated es"
    by (auto simp: isolated_def fun_eq_iff)
  show ?thesis
    unfolding validate_def Let_def filter_append p
    by (simp add: filter_isolation_cycle_scan filter_isolation_isolated
        filter_isolation_condition filter_isolation_disabled
        is_isolation_issue_def no_trigger_issue_def)
qed

text \<open>
  C6. The isolation warnings of \<open>validate\<close> are one warning for each node that is not a
  trigger and whose id is neither the source nor the target of an edge, in the order of
  the node list, and nothing else. Each of them is a warning that carries the id of its
  node, as \<open>nodeId\<close> and behind the prefix of the issue id; so for every id the warnings
  that carry it are as many as the isolated nodes with that id.
\<close>

theorem validate_isolation_warnings:
  "filter is_isolation_issue (validate ns es)
     = map isolated_issue (filter (isolated es) ns)
   \<and> map (\<lambda>i. (issue_id i, issue_type i, issue_nodeId i))
         (filter is_isolation_issue (validate ns es))
     = map (\<lambda>n. (''isolated-'' @ node_id n, IssueWarning, Some (node_id n)))
         (filter (isolated es) ns)
   \<and> length (filter (\<lambda>i. is_isolation_issue i \<and> issue_nodeId i = Some x) (validate ns es))
     = length (filter (\<lambda>n. node_id n = x \<and> isolated es n) ns)"
proof -
  note e = isolation_warnings_eq[of ns es]
  have a: "map (\<lambda>i. (issue_id i, issue_type i, issue_nodeId i))
         (filter is_isolation_issue (validate ns es))
     = map (\<lambda>n. (''isolated-'' @ node_id n, IssueWarning, Some (node_id n)))
         (filter (isolated es) ns)"
    unfolding e by (simp add: isolated_issue_def)
  have "filter (\<lambda>i. is_isolation_issue i \<and> issue_nodeId i = Some x) (validate ns es)
          = filter (\<lambda>i. issue_nodeId i = Some x) (filter is_isolation_issue (validate ns es))"
    by (simp add: conj_commute)
  also have "\<dots> = map isolated_issue
                     (filter (\<lambda>n. node_id n = x) (filter (isolated es) ns))"
    unfolding e by (simp add: filter_map comp_def isolated_issue_def)
  finally have b: "length (filter (\<lambda>i. is_isolation_issue i \<and> issue_nodeId i = Some x)
                      (validate ns es))
     = length (filter (\<lambda>n. node_id n = x \<and> isolated es n) ns)"
    by (simp add: conj_commute)
  show ?thesis using e a b by blast
qed

lemma closed_rtrancl:
  assumes "(u, w) \<in> r\<^sup>*" "u \<in> F" "r `` F \<subseteq> F"
  shows "w \<in> F"
  using assms by (induction rule: rtrancl_induct) auto

lemma finished_no_cycle:
  assumes "dfs_inv es s" "v \<in> finished s"
  shows "\<not> cycle_from es v"
proof
  assume "cycle_from es v"
  then obtain w where w: "(v, w) \<in> (edge_rel es)\<^sup>*" "(w, w) \<in> (edge_rel es)\<^sup>+"
    by (auto simp: cycle_from_def)
  have "w \<in> finished s"
    using closed_rtrancl[OF w(1) assms(2)] assms(1) by (simp add: dfs_inv_def)
  then show False using assms(1) w(2) by (auto simp: dfs_inv_def)
qed

lemma cycle_from_step:
  "(v, t) \<in> edge_rel es \<Longrightarrow> cycle_from es t \<Longrightarrow> cycle_from es v"
  unfolding cycle_from_def by (meson converse_rtrancl_into_rtrancl)

lemma out_edges_rel:
  "edge_rel es `` {v} = target ` set (filter (\<lambda>e. source e = v) es)"
  by (auto simp: edge_rel_def image_iff)

text \<open>Finishing a node whose successors are all finished keeps the invariant.\<close>

lemma dfs_inv_finish:
  assumes inv: "dfs_inv es (vis, insert v stk)"
    and v: "v \<notin> stk"
    and succ: "edge_rel es `` {v} \<subseteq> finished (vis, insert v stk)"
  shows "dfs_inv es (vis, stk)"
proof -
  let ?F = "finished (vis, insert v stk)"
  have vin: "v \<in> vis" using inv by (auto simp: dfs_inv_def)
  have F': "finished (vis, stk) = insert v ?F"
    using v vin by (auto simp: finished_def)
  have closed: "edge_rel es `` ?F \<subseteq> ?F" using inv by (simp add: dfs_inv_def)
  have vF: "v \<notin> ?F" by (simp add: finished_def)
  have novv: "(v, v) \<notin> (edge_rel es)\<^sup>+"
  proof
    assume "(v, v) \<in> (edge_rel es)\<^sup>+"
    then obtain t where t: "(v, t) \<in> edge_rel es" "(t, v) \<in> (edge_rel es)\<^sup>*"
      by (meson tranclD)
    have "t \<in> ?F" using t(1) succ by auto
    then have "v \<in> ?F" using closed_rtrancl[OF t(2) _ closed] by simp
    then show False using vF by simp
  qed
  have "snd (vis, stk) \<subseteq> fst (vis, stk)" using inv by (auto simp: dfs_inv_def)
  moreover have "edge_rel es `` finished (vis, stk) \<subseteq> finished (vis, stk)"
    unfolding F' using closed succ by blast
  moreover have "\<forall>u \<in> finished (vis, stk). (u, u) \<notin> (edge_rel es)\<^sup>+"
    unfolding F' using novv inv by (auto simp: dfs_inv_def)
  ultimately show ?thesis by (simp add: dfs_inv_def)
qed

lemma dfs_inv_enter:
  assumes inv: "dfs_inv es (vis, stk)" and v: "v \<notin> vis"
  shows "dfs_inv es (insert v vis, insert v stk)"
proof -
  have "finished (insert v vis, insert v stk) = finished (vis, stk)"
    using v by (auto simp: finished_def)
  then show ?thesis using inv by (auto simp: dfs_inv_def)
qed

lemma hasCycle_correct:
  "dfs_inv es s \<Longrightarrow> (\<forall>u \<in> snd s. (u, v) \<in> (edge_rel es)\<^sup>+) \<Longrightarrow>
     (case hasCycle es v s of
        (b, s') \<Rightarrow> (b \<longrightarrow> cycle_from es v)
                 \<and> (\<not> b \<longrightarrow> dfs_post es s s' \<and> v \<in> finished s'))"
  "dfs_inv es s \<Longrightarrow> (\<forall>e \<in> set rest. \<forall>u \<in> snd s. (u, target e) \<in> (edge_rel es)\<^sup>+) \<Longrightarrow>
     (case hasCycle_edges es rest s of
        (b, s') \<Rightarrow> (b \<longrightarrow> (\<exists>e \<in> set rest. cycle_from es (target e)))
                 \<and> (\<not> b \<longrightarrow> dfs_post es s s' \<and> target ` set rest \<subseteq> finished s'))"
proof (induction es v s and es rest s rule: hasCycle_hasCycle_edges.induct)
  case (1 es v visited recursionStack)
  note inv = "1.prems"(1) and path = "1.prems"(2)
  show ?case
  proof (cases "v \<in> recursionStack")
    case True
    then have "(v, v) \<in> (edge_rel es)\<^sup>+" using path by simp
    then have "cycle_from es v" by (auto simp: cycle_from_def)
    then show ?thesis using True by simp
  next
    case onstack: False
    show ?thesis
    proof (cases "v \<in> visited")
      case True
      then show ?thesis using onstack inv by (simp add: dfs_post_def finished_def)
    next
      case False
      let ?out = "filter (\<lambda>e. source e = v) es"
      let ?s0 = "(insert v visited, insert v recursionStack)"
      have inv0: "dfs_inv es ?s0" by (rule dfs_inv_enter[OF inv False])
      have path0: "\<forall>e \<in> set ?out. \<forall>u \<in> snd ?s0. (u, target e) \<in> (edge_rel es)\<^sup>+"
      proof (intro ballI)
        fix e u assume e: "e \<in> set ?out" and u: "u \<in> snd ?s0"
        have step: "(v, target e) \<in> edge_rel es" using e by (auto simp: edge_rel_def image_iff)
        show "(u, target e) \<in> (edge_rel es)\<^sup>+"
        proof (cases "u = v")
          case True then show ?thesis using step by auto
        next
          case False
          then have "(u, v) \<in> (edge_rel es)\<^sup>+" using u path by simp
          then show ?thesis using step by (meson trancl.trancl_into_trancl)
        qed
      qed
      obtain b s' where r: "hasCycle_edges es ?out ?s0 = (b, s')"
        by (cases "hasCycle_edges es ?out ?s0") auto
      have ih: "(b \<longrightarrow> (\<exists>e \<in> set ?out. cycle_from es (target e)))
                 \<and> (\<not> b \<longrightarrow> dfs_post es ?s0 s' \<and> target ` set ?out \<subseteq> finished s')"
        using "1.IH"[OF onstack False inv0 path0] r by simp
      show ?thesis
      proof (cases b)
        case True
        then obtain e where e: "e \<in> set ?out" "cycle_from es (target e)" using ih by auto
        have "(v, target e) \<in> edge_rel es" using e(1) by (auto simp: edge_rel_def image_iff)
        then have "cycle_from es v" using e(2) by (rule cycle_from_step)
        then show ?thesis using onstack False r True by simp
      next
        case bF: False
        obtain vis' stk' where s': "s' = (vis', stk')" by (cases s') auto
        have post: "dfs_post es ?s0 (vis', stk')" and fin: "target ` set ?out \<subseteq> finished (vis', stk')"
          using ih bF s' by auto
        have stk': "stk' = insert v recursionStack" using post by (simp add: dfs_post_def)
        have vnot: "v \<notin> recursionStack" by (rule onstack)
        have inv': "dfs_inv es (vis', recursionStack)"
        proof (rule dfs_inv_finish[OF _ vnot])
          show "dfs_inv es (vis', insert v recursionStack)"
            using post stk' by (simp add: dfs_post_def)
          show "edge_rel es `` {v} \<subseteq> finished (vis', insert v recursionStack)"
            using fin stk' by (simp add: out_edges_rel)
        qed
        have sub: "visited \<subseteq> vis'" and vin: "v \<in> vis'"
          using post by (auto simp: dfs_post_def)
        have res: "hasCycle es v (visited, recursionStack) = (False, (vis', recursionStack))"
          using onstack False r bF s' stk' by simp
        show ?thesis
          unfolding res using inv' sub vin vnot by (simp add: dfs_post_def finished_def)
      qed
    qed
  qed
next
  case (2 es s)
  then show ?case by (simp add: dfs_post_def)
next
  case (3 es e rest s)
  note inv = "3.prems"(1) and path = "3.prems"(2)
  obtain b s1 where r1: "hasCycle es (target e) s = (b, s1)"
    by (cases "hasCycle es (target e) s") auto
  have ih1: "(b \<longrightarrow> cycle_from es (target e))
                 \<and> (\<not> b \<longrightarrow> dfs_post es s s1 \<and> target e \<in> finished s1)"
    using "3.IH"(1)[OF inv] path r1 by simp
  show ?case
  proof (cases b)
    case True
    then show ?thesis using ih1 r1 by simp
  next
    case bF: False
    have post1: "dfs_post es s s1" and fin1: "target e \<in> finished s1" using ih1 bF by auto
    have inv1: "dfs_inv es s1" and stk1: "snd s1 = snd s" using post1 by (auto simp: dfs_post_def)
    have path1: "\<forall>e \<in> set rest. \<forall>u \<in> snd s1. (u, target e) \<in> (edge_rel es)\<^sup>+"
      using path stk1 by simp
    obtain b2 s2 where r2: "hasCycle_edges es rest s1 = (b2, s2)"
      by (cases "hasCycle_edges es rest s1") auto
    have ih2: "(b2 \<longrightarrow> (\<exists>e \<in> set rest. cycle_from es (target e)))
                 \<and> (\<not> b2 \<longrightarrow> dfs_post es s1 s2 \<and> target ` set rest \<subseteq> finished s2)"
      using "3.IH"(2)[of b s1] r1 bF inv1 path1 r2 by simp
    have res: "hasCycle_edges es (e # rest) s = (b2, s2)" using r1 bF r2 by simp
    show ?thesis
    proof (cases b2)
      case True
      then show ?thesis unfolding res using ih2 by auto
    next
      case False
      have post2: "dfs_post es s1 s2" and fin2: "target ` set rest \<subseteq> finished s2"
        using ih2 False by auto
      have "dfs_post es s s2" using post1 post2 by (auto simp: dfs_post_def)
      moreover have "target e \<in> finished s2"
        using fin1 post2 by (auto simp: dfs_post_def finished_def)
      ultimately show ?thesis unfolding res using False fin2 by simp
    qed
  qed
qed

lemma cycle_scan_count:
  assumes "dfs_inv es s" "snd s = {}"
  shows "length (filter is_cycle_issue (cycle_scan es ns s))
           = (if \<exists>n \<in> set ns. cycle_from es (node_id n) then 1 else 0)"
  using assms
proof (induction ns arbitrary: s)
  case Nil
  then show ?case by simp
next
  case (Cons n ns)
  obtain b s' where r: "hasCycle es (node_id n) s = (b, s')"
    by (cases "hasCycle es (node_id n) s") auto
  have post: "(b \<longrightarrow> cycle_from es (node_id n))
                 \<and> (\<not> b \<longrightarrow> dfs_post es s s' \<and> node_id n \<in> finished s')"
    using hasCycle_correct(1)[OF Cons.prems(1), of "node_id n"] Cons.prems(2) r by simp
  show ?case
  proof (cases b)
    case True
    then show ?thesis using r post by (simp add: is_cycle_issue_def cycle_issue_def)
  next
    case False
    then have inv': "dfs_inv es s'" and stk': "snd s' = {}" and fin: "node_id n \<in> finished s'"
      using post Cons.prems(2) by (auto simp: dfs_post_def)
    have "\<not> cycle_from es (node_id n)" by (rule finished_no_cycle[OF inv' fin])
    then show ?thesis using r False Cons.IH[OF inv' stk'] by simp
  qed
qed

lemma dfs_inv_init: "dfs_inv es ({}, {})"
  by (simp add: dfs_inv_def finished_def)

lemma filter_cycle_isolated: "filter is_cycle_issue (map isolated_issue ns) = []"
  by (induction ns) (simp_all add: is_cycle_issue_def isolated_issue_def)

lemma filter_cycle_condition: "filter is_cycle_issue (map condition_issue ns) = []"
  by (induction ns) (simp_all add: is_cycle_issue_def condition_issue_def)

lemma filter_cycle_disabled: "filter is_cycle_issue (map disabled_issue ns) = []"
  by (induction ns) (simp_all add: is_cycle_issue_def disabled_issue_def)

lemma validate_cycle_count:
  "length (filter is_cycle_issue (validate ns es))
     = (if \<exists>n \<in> set ns. cycle_from es (node_id n) then 1 else 0)"
proof -
  have "filter is_cycle_issue (validate ns es)
          = filter is_cycle_issue (cycle_scan es ns ({}, {}))"
    unfolding validate_def Let_def filter_append
    by (simp add: filter_cycle_isolated filter_cycle_condition filter_cycle_disabled
        is_cycle_issue_def no_trigger_issue_def)
  then show ?thesis
    using cycle_scan_count[OF dfs_inv_init, of es ns] by simp
qed

lemma cycle_reachable_iff:
  assumes "endpoints_present ns es"
  shows "(\<exists>n \<in> set ns. cycle_from es (node_id n)) \<longleftrightarrow> has_cycle es"
proof
  assume "\<exists>n \<in> set ns. cycle_from es (node_id n)"
  then show "has_cycle es" by (auto simp: cycle_from_def has_cycle_def)
next
  assume "has_cycle es"
  then obtain v where v: "(v, v) \<in> (edge_rel es)\<^sup>+" by (auto simp: has_cycle_def)
  then obtain t where "(v, t) \<in> edge_rel es" by (meson tranclD)
  then obtain e where e: "e \<in> set es" "source e = v" by (auto simp: edge_rel_def)
  then have "v \<in> set (map node_id ns)"
    using assms by (auto simp: endpoints_present_def list_all_iff)
  then obtain n where n: "n \<in> set ns" "node_id n = v" by auto
  have "cycle_from es v" using v by (auto simp: cycle_from_def)
  then show "\<exists>n \<in> set ns. cycle_from es (node_id n)" using n by auto
qed

text \<open>
  C2. On a graph whose edges start and end at nodes of the graph, \<open>validate\<close> returns
  exactly one cycle error when the edges contain a directed cycle, and none when they do
  not.
\<close>

theorem validate_cycle_rule:
  assumes "endpoints_present ns es"
  shows "length (filter is_cycle_issue (validate ns es)) = (if has_cycle es then 1 else 0)"
  using validate_cycle_count[of ns es] cycle_reachable_iff[OF assms] by simp

theorem validate_cycle_rule_witness:
  "endpoints_present [mk_node ''a'' ''trigger'', mk_node ''b'' ''action'']
       [mk_edge ''a'' ''b'', mk_edge ''b'' ''a'']
   \<and> has_cycle [mk_edge ''a'' ''b'', mk_edge ''b'' ''a'']
   \<and> length (filter is_cycle_issue
        (validate [mk_node ''a'' ''trigger'', mk_node ''b'' ''action'']
           [mk_edge ''a'' ''b'', mk_edge ''b'' ''a''])) = 1"
proof -
  let ?ns = "[mk_node ''a'' ''trigger'', mk_node ''b'' ''action'']"
  let ?es = "[mk_edge ''a'' ''b'', mk_edge ''b'' ''a'']"
  have wf: "endpoints_present ?ns ?es"
    by (simp add: endpoints_present_def mk_node_def mk_edge_def)
  have "(''a'', ''b'') \<in> edge_rel ?es" "(''b'', ''a'') \<in> edge_rel ?es"
    by (simp_all add: edge_rel_def mk_edge_def)
  then have "(''a'', ''a'') \<in> (edge_rel ?es)\<^sup>+" by (meson trancl.intros)
  then have cyc: "has_cycle ?es" unfolding has_cycle_def by blast
  show ?thesis using wf cyc validate_cycle_rule[OF wf] by simp
qed

section \<open>Properties of the history\<close>

lemma slice_last_length: "length (slice_last n xs) = min n (length xs)"
  by (simp add: slice_last_def)

lemma slice_last_short: "length xs \<le> n \<Longrightarrow> slice_last n xs = xs"
  by (simp add: slice_last_def)

lemma slice_to_all: "int (length xs) \<le> k \<Longrightarrow> slice_to k xs = xs"
  by (simp add: slice_to_def)

lemma initial_history [simp]:
  "history (initial_state ns es) = []" "historyIndex (initial_state ns es) = -1"
  "nodes (initial_state ns es) = ns" "edges (initial_state ns es) = es"
  by (simp_all add: initial_state_def)

lemma history_bounded: "length (history (saveToHistory cl st)) \<le> 50"
  by (simp add: saveToHistory_def Let_def slice_last_length)

subsection \<open>What \<open>saveToHistory\<close> keeps\<close>

text \<open>
  With a closure whose index is the current one (at least \<open>-1\<close>), the push keeps the
  entries up to the index, appends the closure's graph and keeps the last 50; a redo
  right after it changes nothing. This is the case of the handlers that are rebuilt with
  every render.
\<close>

lemma saveToHistory_current_index:
  assumes "c_historyIndex cl = historyIndex st" "-1 \<le> historyIndex st"
  shows "history (saveToHistory cl st)
           = (let kept = take (nat (historyIndex st + 1)) (history st);
                  newHistory = kept @ [\<lparr>snap_nodes = c_nodes cl, snap_edges = c_edges cl\<rparr>]
              in drop (length newHistory - 50) newHistory)
         \<and> redo (saveToHistory cl st) = Inr (saveToHistory cl st)"
proof -
  have k: "slice_to (c_historyIndex cl + 1) (history st)
             = take (nat (historyIndex st + 1)) (history st)"
    using assms by (simp add: slice_to_def)
  have h: "history (saveToHistory cl st)
             = slice_last 50 (take (nat (historyIndex st + 1)) (history st)
                 @ [\<lparr>snap_nodes = c_nodes cl, snap_edges = c_edges cl\<rparr>])"
    by (simp add: saveToHistory_def Let_def k)
  have i: "historyIndex (saveToHistory cl st) = historyIndex st + 1"
    by (simp add: saveToHistory_def)
  have "int (length (history (saveToHistory cl st))) - 1 \<le> historyIndex st + 1"
    unfolding h using assms(2) by (simp add: slice_last_length)
  then have "redo (saveToHistory cl st) = Inr (saveToHistory cl st)"
    by (simp add: redo_def i)
  then show ?thesis using h by (simp add: slice_last_def Let_def)
qed

lemma onDeleteNode_history:
  "history (onDeleteNode i st)
     = slice_last 50 (slice_to (historyIndex st + 1) (history st) @ [shown st])"
  "historyIndex (onDeleteNode i st) = historyIndex st + 1"
  by (simp_all add: onDeleteNode_def saveToHistory_def render_closure_def shown_def Let_def)

subsection \<open>Undo and redo on a state that shows its history entry\<close>

lemma undo_in_sync:
  assumes "in_sync st"
  shows "\<exists>u. undo st = Inr u \<and> in_sync u \<and> history u = history st
             \<and> historyIndex u = max 0 (historyIndex st - 1)"
proof (cases "historyIndex st > 0")
  case True
  then have "js_index (history st) (historyIndex st - 1)
               = Some (history st ! nat (historyIndex st - 1))"
    using assms by (simp add: js_index_def in_sync_def)
  then show ?thesis using True assms
    by (simp add: undo_def in_sync_def shown_def)
next
  case False
  then show ?thesis using assms by (auto simp: undo_def in_sync_def)
qed

lemma redo_in_sync:
  assumes "in_sync st"
  shows "\<exists>u. redo st = Inr u \<and> in_sync u \<and> history u = history st
             \<and> historyIndex u = min (int (length (history st)) - 1) (historyIndex st + 1)"
proof (cases "historyIndex st < int (length (history st)) - 1")
  case True
  then have "js_index (history st) (historyIndex st + 1)
               = Some (history st ! nat (historyIndex st + 1))"
    using assms by (simp add: js_index_def in_sync_def)
  then show ?thesis using True assms
    by (simp add: redo_def in_sync_def shown_def)
next
  case False
  then show ?thesis using assms by (auto simp: redo_def in_sync_def)
qed

lemma repeat_undo:
  assumes "in_sync st"
  shows "\<exists>u. repeat k undo st = Inr u \<and> in_sync u \<and> history u = history st
             \<and> historyIndex u = max 0 (historyIndex st - int k)"
  using assms
proof (induction k arbitrary: st)
  case 0
  then show ?case by (simp add: in_sync_def)
next
  case (Suc k)
  obtain u where u: "undo st = Inr u" "in_sync u" "history u = history st"
      "historyIndex u = max 0 (historyIndex st - 1)"
    using undo_in_sync[OF Suc.prems] by blast
  obtain w where w: "repeat k undo u = Inr w" "in_sync w" "history w = history u"
      "historyIndex w = max 0 (historyIndex u - int k)"
    using Suc.IH[OF u(2)] by blast
  have "historyIndex w = max 0 (historyIndex st - int (Suc k))" using w(4) u(4) by auto
  then show ?case using u w by simp
qed

lemma repeat_redo:
  assumes "in_sync st"
  shows "\<exists>u. repeat k redo st = Inr u \<and> in_sync u \<and> history u = history st
             \<and> historyIndex u = min (int (length (history st)) - 1) (historyIndex st + int k)"
  using assms
proof (induction k arbitrary: st)
  case 0
  then show ?case by (simp add: in_sync_def)
next
  case (Suc k)
  obtain u where u: "redo st = Inr u" "in_sync u" "history u = history st"
      "historyIndex u = min (int (length (history st)) - 1) (historyIndex st + 1)"
    using redo_in_sync[OF Suc.prems] by blast
  obtain w where w: "repeat k redo u = Inr w" "in_sync w" "history w = history u"
      "historyIndex w = min (int (length (history u)) - 1) (historyIndex u + int k)"
    using Suc.IH[OF u(2)] by blast
  have "historyIndex w = min (int (length (history st)) - 1) (historyIndex st + int (Suc k))"
    using w(4) u(3,4) by auto
  then show ?case using u w by simp
qed

subsection \<open>A sequence of edits\<close>

text \<open>
  Each deletion pushes the graph it started from. After \<open>N\<close> deletions from an empty
  history the entries are the graphs before each of them, and the graph on display, the
  one after the last deletion, is not among them.
\<close>

lemma renders_length [simp]: "length (renders ids st) = length ids"
  by (induction ids arbitrary: st) simp_all

lemma renders_hd: "ids \<noteq> [] \<Longrightarrow> hd (renders ids st) = st"
  by (cases ids) simp_all

lemma renders_last: "ids \<noteq> [] \<Longrightarrow> last (renders ids st) = fold onDeleteNode (butlast ids) st"
proof (induction ids arbitrary: st)
  case Nil
  then show ?case by simp
next
  case (Cons i ids)
  show ?case
  proof (cases "ids = []")
    case True
    then show ?thesis by simp
  next
    case False
    then have "renders ids (onDeleteNode i st) \<noteq> []"
      by (metis length_0_conv renders_length)
    then show ?thesis using Cons.IH[OF False, of "onDeleteNode i st"] False by simp
  qed
qed

lemma deletions_history:
  assumes "historyIndex st = int (length (history st)) - 1"
    and "length (history st) + length ids \<le> 50"
  shows "history (fold onDeleteNode ids st) = history st @ map shown (renders ids st)
         \<and> historyIndex (fold onDeleteNode ids st)
             = int (length (history st) + length ids) - 1"
  using assms
proof (induction ids arbitrary: st)
  case Nil
  then show ?case by simp
next
  case (Cons i ids)
  let ?st = "onDeleteNode i st"
  have h: "history ?st = history st @ [shown st]"
    using Cons.prems
    by (simp add: onDeleteNode_history slice_to_all slice_last_short)
  have "historyIndex ?st = historyIndex st + 1" by (simp add: onDeleteNode_history)
  moreover have "length (history ?st) = Suc (length (history st))" unfolding h by simp
  ultimately have x: "historyIndex ?st = int (length (history ?st)) - 1"
    using Cons.prems(1) by simp
  have l: "length (history ?st) + length ids \<le> 50"
    using Cons.prems(2) by (simp add: h)
  show ?case using Cons.IH[OF x l] by (simp add: h)
qed

lemma deletions_index:
  "historyIndex (fold onDeleteNode ids st) = historyIndex st + int (length ids)"
  by (induction ids arbitrary: st) (simp_all add: onDeleteNode_history)

text \<open>A first edit cannot be undone: its push is the only entry and the index is 0.\<close>

lemma first_edit_not_undone:
  assumes "history st0 = []" "historyIndex st0 = -1"
  shows "undo (onDeleteNode i st0) = Inr (onDeleteNode i st0)"
  using assms by (simp add: undo_def onDeleteNode_history)

text \<open>
  From two edits on, \<open>N\<close> undos show the initial graph, and \<open>N\<close> redos then stop at the
  graph before the last edit.
\<close>

lemma deletions_undo_redo:
  assumes "history st0 = []" "historyIndex st0 = -1" "2 \<le> length ids" "length ids \<le> 50"
  shows "\<exists>u r. repeat (length ids) undo (fold onDeleteNode ids st0) = Inr u
              \<and> shown u = shown st0
              \<and> repeat (length ids) redo u = Inr r
              \<and> shown r = shown (fold onDeleteNode (butlast ids) st0)"
proof -
  let ?st = "fold onDeleteNode ids st0"
  let ?H = "map shown (renders ids st0)"
  define k where "k = length ids - 2"
  have k: "length ids = Suc (Suc k)"
    using assms(3) by (simp add: k_def)
  have ne: "ids \<noteq> []" using assms(3) by auto
  have h: "history ?st = ?H" and x: "historyIndex ?st = int (length ids) - 1"
    using deletions_history[of st0 ids] assms by simp_all
  have lenH: "length ?H = length ids" by simp
  have j: "js_index (history ?st) (historyIndex ?st - 1) = Some (?H ! k)"
    unfolding h x using k by (simp add: js_index_def)
  define u1 where "u1 = ?st\<lparr>nodes := snap_nodes (?H ! k), edges := snap_edges (?H ! k),
                              historyIndex := historyIndex ?st - 1\<rparr>"
  have un1: "undo ?st = Inr u1"
    using j x k by (simp add: undo_def u1_def)
  have u1h: "history u1 = ?H" "historyIndex u1 = int k"
    using h x k by (simp_all add: u1_def)
  have sync1: "in_sync u1"
    using u1h k by (simp add: in_sync_def shown_def u1_def)
  obtain u where u: "repeat (Suc k) undo u1 = Inr u" "in_sync u" "history u = history u1"
      "historyIndex u = max 0 (historyIndex u1 - int (Suc k))"
    using repeat_undo[OF sync1, of "Suc k"] by blast
  have iu: "historyIndex u = 0" using u(4) u1h(2) by simp
  have ru: "repeat (length ids) undo ?st = Inr u"
    unfolding k using un1 u(1) by simp
  have rne: "renders ids st0 \<noteq> []" using ne by (cases ids) simp_all
  have "?H ! 0 = shown (hd (renders ids st0))"
    using ne rne by (simp add: hd_conv_nth)
  then have su: "shown u = shown st0"
    using u(2,3) iu u1h(1) renders_hd[OF ne, of st0] by (simp add: in_sync_def)
  obtain r where r: "repeat (length ids) redo u = Inr r" "in_sync r" "history r = history u"
      "historyIndex r = min (int (length (history u)) - 1) (historyIndex u + int (length ids))"
    using repeat_redo[OF u(2), of "length ids"] by blast
  have ir: "historyIndex r = int (Suc k)" using r(4) iu u(3) u1h(1) k by simp
  have "?H ! Suc k = shown (last (renders ids st0))"
    using ne rne k by (simp add: last_conv_nth)
  then have l: "?H ! Suc k = shown (fold onDeleteNode (butlast ids) st0)"
    using renders_last[OF ne, of st0] by simp
  have "shown r = history r ! nat (historyIndex r)" using r(2) by (simp add: in_sync_def)
  also have "\<dots> = ?H ! Suc k"
  proof -
    have "nat (int (Suc k)) = Suc k" by (rule nat_int)
    then show ?thesis unfolding r(3) u(3) u1h(1) ir by (rule arg_cong)
  qed
  finally have sr: "shown r = shown (fold onDeleteNode (butlast ids) st0)"
    using l by simp
  show ?thesis using ru su r(1) sr by blast
qed

lemma onDeleteNode_graph:
  "nodes (onDeleteNode i st) = filter (\<lambda>n. node_id n \<noteq> i) (nodes st)"
  "edges (onDeleteNode i st) = filter (\<lambda>e. source e \<noteq> i \<and> target e \<noteq> i) (edges st)"
  by (simp_all add: onDeleteNode_def saveToHistory_def)

lemma onConnect_history:
  "history (onConnect addEdge cl params st)
     = slice_last 50 (slice_to (c_historyIndex cl + 1) (history st)
         @ [\<lparr>snap_nodes = c_nodes cl, snap_edges = c_edges cl\<rparr>])"
  "historyIndex (onConnect addEdge cl params st) = historyIndex st + 1"
  by (simp_all add: onConnect_def saveToHistory_def Let_def)

lemma shown_node_ids:
  "shown a = shown b \<Longrightarrow> map node_id (nodes a) = map node_id (nodes b)"
  by (simp add: shown_def)

text \<open>
  C3. One deletion in the editor that starts with \<open>four_nodes\<close> cannot be undone: after
  one undo the graph is still the one without \<open>a\<close>. After two deletions, two undos do show
  the initial graph, but two redos then stop at the graph after the first deletion, not
  at the final one. The handlers push the graph of their render, which is the graph
  before their own update, not the state after the mutation.
\<close>

theorem undo_redo_after_edits:
  "map_sum id shown (repeat 1 undo (onDeleteNode ''a'' (initial_state four_nodes [])))
     = Inr (shown (onDeleteNode ''a'' (initial_state four_nodes [])))
   \<and> shown (onDeleteNode ''a'' (initial_state four_nodes [])) \<noteq> shown (initial_state four_nodes [])
   \<and> map_sum id shown
        (repeat 2 undo (fold onDeleteNode [''a'', ''b''] (initial_state four_nodes [])))
     = Inr (shown (initial_state four_nodes []))
   \<and> map_sum id shown
        (and_then (repeat 2 undo (fold onDeleteNode [''a'', ''b''] (initial_state four_nodes [])))
           (repeat 2 redo))
     = Inr (shown (onDeleteNode ''a'' (initial_state four_nodes [])))
   \<and> shown (onDeleteNode ''a'' (initial_state four_nodes []))
       \<noteq> shown (fold onDeleteNode [''a'', ''b''] (initial_state four_nodes []))"
proof -
  let ?st0 = "initial_state four_nodes []"
  have one: "repeat 1 undo (onDeleteNode ''a'' ?st0) = Inr (onDeleteNode ''a'' ?st0)"
    using first_edit_not_undone[of ?st0 "''a''"] by simp
  have n0: "map node_id (nodes ?st0) = [''a'', ''b'', ''c'', ''d'']"
    by (simp add: four_nodes_def mk_node_def)
  have n1: "map node_id (nodes (onDeleteNode ''a'' ?st0)) = [''b'', ''c'', ''d'']"
    by (simp add: onDeleteNode_graph four_nodes_def mk_node_def)
  have n2: "map node_id (nodes (fold onDeleteNode [''a'', ''b''] ?st0)) = [''c'', ''d'']"
    by (simp add: onDeleteNode_graph four_nodes_def mk_node_def)
  have d1: "shown (onDeleteNode ''a'' ?st0) \<noteq> shown ?st0"
    using n0 n1 shown_node_ids[of "onDeleteNode ''a'' ?st0" ?st0] by auto
  have d2: "shown (onDeleteNode ''a'' ?st0) \<noteq> shown (fold onDeleteNode [''a'', ''b''] ?st0)"
    using n1 n2
      shown_node_ids[of "onDeleteNode ''a'' ?st0" "fold onDeleteNode [''a'', ''b''] ?st0"]
    by auto
  obtain u r where ur: "repeat 2 undo (fold onDeleteNode [''a'', ''b''] ?st0) = Inr u"
      "shown u = shown ?st0" "repeat 2 redo u = Inr r"
      "shown r = shown (fold onDeleteNode (butlast [''a'', ''b'']) ?st0)"
    using deletions_undo_redo[of ?st0 "[''a'', ''b'']"] by (auto simp: numeral_2_eq_2)
  have r': "shown r = shown (onDeleteNode ''a'' ?st0)" using ur(4) by simp
  show ?thesis
    using one d1 d2 ur(1,2,3) r' by (simp add: and_then_def)
qed

subsection \<open>More than 50 edits\<close>

lemma deletions_length:
  assumes "length (history st) = min 50 (nat (historyIndex st + 1))" "-1 \<le> historyIndex st"
  shows "length (history (fold onDeleteNode ids st))
           = min 50 (nat (historyIndex st + 1) + length ids)"
  using assms
proof (induction ids arbitrary: st)
  case Nil
  then show ?case by simp
next
  case (Cons i ids)
  let ?st = "onDeleteNode i st"
  have "int (length (history st)) \<le> historyIndex st + 1"
    using Cons.prems by simp
  then have h: "history ?st = slice_last 50 (history st @ [shown st])"
    by (simp add: onDeleteNode_history slice_to_all)
  have i: "historyIndex ?st = historyIndex st + 1" by (simp add: onDeleteNode_history)
  have n: "nat (historyIndex ?st + 1) = Suc (nat (historyIndex st + 1))"
    unfolding i using Cons.prems(2) by simp
  have "length (history ?st) = min 50 (Suc (length (history st)))"
    unfolding h by (simp add: slice_last_length)
  then have a: "length (history ?st) = min 50 (nat (historyIndex ?st + 1))"
    unfolding n using Cons.prems(1) by arith
  have b: "-1 \<le> historyIndex ?st" unfolding i using Cons.prems(2) by simp
  show ?case using Cons.IH[OF a b] unfolding n by simp
qed

lemma undo_beyond_history:
  assumes "history st0 = []" "historyIndex st0 = -1" "52 \<le> length ids"
  shows "length (history (fold onDeleteNode ids st0)) = 50
         \<and> historyIndex (fold onDeleteNode ids st0) = int (length ids) - 1
         \<and> undo (fold onDeleteNode ids st0) = Inl TypeError"
proof -
  let ?st = "fold onDeleteNode ids st0"
  have x: "historyIndex ?st = int (length ids) - 1"
    using deletions_index[of ids st0] assms(2) by simp
  have len: "length (history ?st) = 50"
    using deletions_length[of st0 ids] assms by simp
  have "js_index (history ?st) (historyIndex ?st - 1) = None"
    using assms(3) len by (simp add: js_index_def x)
  then show ?thesis using len x assms(3) by (simp add: undo_def)
qed

text \<open>
  C4. After 60 edits (the 60 nodes of a graph deleted one by one) the history holds 50
  snapshots, but the index is 59: it grows with every push and is not moved back when the
  oldest entries are dropped. \<open>undo\<close> then reads \<open>history[58]\<close>, which does not exist, and
  throws.
\<close>

theorem undo_after_sixty_edits:
  "length (history (fold onDeleteNode sixty_ids (initial_state sixty_nodes []))) = 50
   \<and> historyIndex (fold onDeleteNode sixty_ids (initial_state sixty_nodes [])) = 59
   \<and> undo (fold onDeleteNode sixty_ids (initial_state sixty_nodes [])) = Inl TypeError"
  using undo_beyond_history [of "initial_state sixty_nodes []" sixty_ids]
  by (simp add: sixty_ids_def)

subsection \<open>A push from a handler that is not rebuilt\<close>

text \<open>
  C5. \<open>onConnect\<close> calls the \<open>saveToHistory\<close> of the first render. After three deletions
  and one undo the history has three entries and the index is 1. Connecting two nodes
  then cuts at the first render's index \<open>-1\<close>, not at the current one: every entry is
  dropped, the first render's graph is the only entry left, the index is 2, and the next
  undo throws.
\<close>

theorem stale_connect_discards_history:
  "undo deleted_three = Inr undone_once
   \<and> length (history undone_once) = 3 \<and> historyIndex undone_once = 1
   \<and> history (onConnect library_addEdge first_render connect_c_d undone_once)
       = [shown (initial_state four_nodes [])]
   \<and> historyIndex (onConnect library_addEdge first_render connect_c_d undone_once) = 2
   \<and> undo (onConnect library_addEdge first_render connect_c_d undone_once) = Inl TypeError"
proof -
  let ?st0 = "initial_state four_nodes []"
  let ?c = "onConnect library_addEdge first_render connect_c_d undone_once"
  have h: "history deleted_three = map shown (renders [''a'', ''b'', ''c''] ?st0)"
    and x: "historyIndex deleted_three = 2"
    unfolding deleted_three_def
    using deletions_history[of ?st0 "[''a'', ''b'', ''c'']"] by simp_all
  have len: "length (history deleted_three) = 3" unfolding h by simp
  have j: "js_index (history deleted_three) 1 = Some (history deleted_three ! 1)"
    using len by (simp add: js_index_def)
  have un: "undo deleted_three
              = Inr (deleted_three\<lparr>nodes := snap_nodes (history deleted_three ! 1),
                                  edges := snap_edges (history deleted_three ! 1),
                                  historyIndex := 1\<rparr>)"
    using x j by (simp add: undo_def)
  then have a: "undo deleted_three = Inr undone_once"
    by (simp add: undone_once_def)
  have uh: "history undone_once = history deleted_three" "historyIndex undone_once = 1"
    using un by (simp_all add: undone_once_def)
  have ch: "history ?c = [shown ?st0]"
    by (simp add: onConnect_history first_render_def render_closure_def slice_to_def
        slice_last_def shown_def)
  have cx: "historyIndex ?c = 2"
    by (simp add: onConnect_history uh)
  have "js_index (history ?c) (historyIndex ?c - 1) = None"
    unfolding ch cx by (simp add: js_index_def)
  then have cu: "undo ?c = Inl TypeError"
    using cx by (simp add: undo_def)
  show ?thesis using a uh len ch cx cu by simp
qed

section \<open>Properties of the run gate, the simulation and the edits\<close>

lemma run_blocked_iff:
  "run_blocked (executeWorkflow ex gl (st, eng))
     \<longleftrightarrow> enableValidation (workflowSettings st) \<and> filter enabled_trigger (nodes st) = []"
proof -
  have p: "(\<lambda>n. node_type n = Some ''trigger'' \<and> enabled (data n) \<noteq> Some False) = enabled_trigger"
    by (simp add: enabled_trigger_def fun_eq_iff)
  show ?thesis
    unfolding run_blocked_def executeWorkflow_def p
    by (simp add: Let_def split: prod.splits sum.splits)
qed

lemma no_trigger_issue_reported:
  "no_trigger_issue \<in> set (validate ns es) \<longleftrightarrow> filter (\<lambda>n. node_type n = Some ''trigger'') ns = []"
proof -
  have c: "no_trigger_issue \<notin> set (cycle_scan es ns ({}, {}))"
    using cycle_scan_cases[of es ns "({}, {})"]
    by (auto simp: no_trigger_issue_def cycle_issue_def)
  show ?thesis
    unfolding validate_def Let_def using c
    by (auto simp: no_trigger_issue_def isolated_issue_def condition_issue_def
        disabled_issue_def)
qed

text \<open>
  C1 (as the code has it). \<open>executeWorkflow\<close> does not consult the issue list. With
  validation enabled it blocks the run exactly when no node is an enabled trigger; so it
  blocks whenever \<open>validate\<close> reports the no-trigger error, and no other issue, whatever
  its severity, enters the decision. With validation disabled nothing is blocked.
\<close>

theorem run_gate:
  "(run_blocked (executeWorkflow ex gl (st, eng))
      \<longleftrightarrow> enableValidation (workflowSettings st) \<and> filter enabled_trigger (nodes st) = [])
   \<and> (enableValidation (workflowSettings st)
        \<and> no_trigger_issue \<in> set (validate (nodes st) (edges st))
      \<longrightarrow> run_blocked (executeWorkflow ex gl (st, eng)))"
proof -
  have "filter enabled_trigger (nodes st) = []"
    if "filter (\<lambda>n. node_type n = Some ''trigger'') (nodes st) = []"
    using that by (auto simp: filter_empty_conv enabled_trigger_def)
  then show ?thesis
    by (simp add: run_blocked_iff no_trigger_issue_reported)
qed

theorem run_gate_witness:
  "enableValidation (workflowSettings (initial_state [mk_node ''b'' ''action''] []))
   \<and> no_trigger_issue \<in> set (validate (nodes (initial_state [mk_node ''b'' ''action''] []))
                                  (edges (initial_state [mk_node ''b'' ''action''] [])))
   \<and> run_blocked (executeWorkflow instant_engine empty_log
        (initial_state [mk_node ''b'' ''action''] [], ()))"
proof -
  have a: "enableValidation (workflowSettings (initial_state [mk_node ''b'' ''action''] []))"
    by (simp add: initial_state_def)
  have b: "no_trigger_issue \<in> set (validate (nodes (initial_state [mk_node ''b'' ''action''] []))
                                  (edges (initial_state [mk_node ''b'' ''action''] [])))"
    by (simp add: validate_def mk_node_def)
  have "run_blocked (executeWorkflow instant_engine empty_log
        (initial_state [mk_node ''b'' ''action''] [], ()))"
    using a b run_gate [of instant_engine empty_log "initial_state [mk_node ''b'' ''action''] []" "()"]
    by blast
  then show ?thesis using a b by blast
qed

text \<open>
  A graph with an enabled trigger and a cycle has an error issue and is not blocked; a
  graph whose only trigger is disabled has no error issue and is blocked.
\<close>

theorem run_gate_counterexample:
  "0 < errorCount (validate [mk_node ''a'' ''trigger'', mk_node ''b'' ''action'']
                     [mk_edge ''a'' ''b'', mk_edge ''b'' ''a''])
   \<and> \<not> run_blocked (executeWorkflow instant_engine empty_log
          (initial_state [mk_node ''a'' ''trigger'', mk_node ''b'' ''action'']
             [mk_edge ''a'' ''b'', mk_edge ''b'' ''a''], ()))
   \<and> errorCount (validate [disabled_node ''a'' ''trigger''] []) = 0
   \<and> run_blocked (executeWorkflow instant_engine empty_log
          (initial_state [disabled_node ''a'' ''trigger''] [], ()))"
  by (simp add: errorCount_def validate_def mk_node_def mk_edge_def disabled_node_def
      cycle_issue_def disabled_issue_def isolated_issue_def
      run_blocked_def executeWorkflow_def initial_state_def instant_engine_def Let_def)

text \<open>
  C7. Simulating a node returns the editor state as it was, whatever the engine answers:
  in particular the status of every node is unchanged.
\<close>

theorem simulate_keeps_state:
  "fst (snd (handleSimulateNode ex nodeId inputData (st, eng))) = st
   \<and> map (\<lambda>n. status (data n)) (nodes (fst (snd (handleSimulateNode ex nodeId inputData (st, eng)))))
       = map (\<lambda>n. status (data n)) (nodes st)"
  by (simp add: handleSimulateNode_def split: option.splits prod.splits sum.splits)

text \<open>
  C8. \<open>clearExecution\<close> sets the status of every node to idle, keeps the nodes otherwise in
  place, empties the execution log and sets both counters to zero.
\<close>

theorem clearExecution_resets:
  "map (\<lambda>n. status (data n)) (nodes (fst (clearExecution ce (st, eng))))
     = replicate (length (nodes st)) Idle
   \<and> map node_id (nodes (fst (clearExecution ce (st, eng)))) = map node_id (nodes st)
   \<and> executionLog (fst (clearExecution ce (st, eng))) = []
   \<and> totalNodes (fst (clearExecution ce (st, eng))) = 0
   \<and> completedNodes (fst (clearExecution ce (st, eng))) = 0"
  by (simp add: clearExecution_def map_replicate_const comp_def)

lemma saveToHistory_graph [simp]:
  "nodes (saveToHistory cl st) = nodes st" "edges (saveToHistory cl st) = edges st"
  by (simp_all add: saveToHistory_def)

lemma endpoints_present_iff:
  "endpoints_present ns es \<longleftrightarrow>
     (\<forall>e \<in> set es. source e \<in> node_id ` set ns \<and> target e \<in> node_id ` set ns)"
  by (simp add: endpoints_present_def list_all_iff)

lemma onDeleteNode_endpoints:
  assumes "endpoints_present (nodes st) (edges st)"
  shows "endpoints_present (nodes (onDeleteNode i st)) (edges (onDeleteNode i st))"
  using assms unfolding endpoints_present_iff onDeleteNode_def
  by (auto simp: image_iff)

lemma onDeleteNode_incident:
  "list_all (\<lambda>e. source e \<noteq> i \<and> target e \<noteq> i) (edges (onDeleteNode i st))"
  by (simp add: onDeleteNode_def list_all_iff)

lemma deleteSelectedNodes_endpoints:
  assumes "endpoints_present (nodes st) (edges st)"
  shows "endpoints_present (nodes (deleteSelectedNodes st)) (edges (deleteSelectedNodes st))"
  using assms unfolding endpoints_present_iff deleteSelectedNodes_def
  by (simp add: image_iff) metis

lemma deleteSelectedNodes_incident:
  "list_all (\<lambda>e. source e \<notin> set (selectedNodes st) \<and> target e \<notin> set (selectedNodes st))
     (edges (deleteSelectedNodes st))"
  by (simp add: deleteSelectedNodes_def list_all_iff)

lemma onConnect_endpoints:
  assumes "endpoints_present (nodes st) (edges st)"
    and "adds_only_connection addEdge params (edges st)"
    and "c_source params \<in> set (map node_id (nodes st))"
    and "c_target params \<in> set (map node_id (nodes st))"
  shows "endpoints_present (nodes (onConnect addEdge cl params st))
           (edges (onConnect addEdge cl params st))"
  using assms unfolding endpoints_present_iff onConnect_def adds_only_connection_def list_all_iff
  by (simp add: image_iff) metis

lemma onApplyTemplate_graph:
  "nodes (onApplyTemplate t st) = t_nodes t" "edges (onApplyTemplate t st) = t_edges t"
  by (simp_all add: onApplyTemplate_def)

text \<open>
  What a handler pushes is the graph of the render it ran in, not the graph it leaves:
  after a deletion the newest history entry is the graph before the deletion.
\<close>

lemma onDeleteNode_pushes_render_graph:
  "last (history (onDeleteNode i st)) = shown st"
  by (simp add: onDeleteNode_def saveToHistory_def render_closure_def shown_def
      slice_last_def Let_def)

lemma library_addEdge_adds_only: "adds_only_connection library_addEdge params es"
  by (auto simp: adds_only_connection_def library_addEdge_def Let_def list_all_iff)

text \<open>
  C9 (as the code has it). Deleting a node, or the selected nodes, keeps every edge
  between present nodes and leaves no edge at a deleted node. \<open>onConnect\<close> keeps the
  invariant when \<open>addEdge\<close> adds at most the edge of the connection and both ends of the
  connection are nodes of the graph; it does not look at the node list itself. A
  template is installed as it comes: the result has the invariant when the template has.
\<close>

theorem edits_keep_endpoints:
  assumes "endpoints_present (nodes st) (edges st)"
  shows "endpoints_present (nodes (onDeleteNode i st)) (edges (onDeleteNode i st))
    \<and> list_all (\<lambda>e. source e \<noteq> i \<and> target e \<noteq> i) (edges (onDeleteNode i st))
    \<and> endpoints_present (nodes (deleteSelectedNodes st)) (edges (deleteSelectedNodes st))
    \<and> list_all (\<lambda>e. source e \<notin> set (selectedNodes st) \<and> target e \<notin> set (selectedNodes st))
         (edges (deleteSelectedNodes st))
    \<and> (adds_only_connection addEdge params (edges st)
        \<and> c_source params \<in> set (map node_id (nodes st))
        \<and> c_target params \<in> set (map node_id (nodes st))
       \<longrightarrow> endpoints_present (nodes (onConnect addEdge cl params st))
             (edges (onConnect addEdge cl params st)))
    \<and> (endpoints_present (t_nodes t) (t_edges t)
       \<longrightarrow> endpoints_present (nodes (onApplyTemplate t st)) (edges (onApplyTemplate t st)))"
  using onDeleteNode_endpoints[OF assms] onDeleteNode_incident
    deleteSelectedNodes_endpoints[OF assms] deleteSelectedNodes_incident
    onConnect_endpoints[OF assms] onApplyTemplate_graph
  by metis

theorem edits_keep_endpoints_witness:
  "endpoints_present (nodes two_nodes) (edges two_nodes)
   \<and> adds_only_connection library_addEdge connect_b_a (edges two_nodes)
   \<and> c_source connect_b_a \<in> set (map node_id (nodes two_nodes))
   \<and> c_target connect_b_a \<in> set (map node_id (nodes two_nodes))
   \<and> edges (onDeleteNode ''a'' two_nodes) = []
   \<and> endpoints_present (nodes (onDeleteNode ''a'' two_nodes)) (edges (onDeleteNode ''a'' two_nodes))
   \<and> endpoints_present (nodes (deleteSelectedNodes two_nodes)) (edges (deleteSelectedNodes two_nodes))
   \<and> endpoints_present (nodes (onConnect library_addEdge (render_closure two_nodes) connect_b_a two_nodes))
        (edges (onConnect library_addEdge (render_closure two_nodes) connect_b_a two_nodes))
   \<and> endpoints_present (t_nodes sound_template) (t_edges sound_template)
   \<and> endpoints_present (nodes (onApplyTemplate sound_template two_nodes))
        (edges (onApplyTemplate sound_template two_nodes))"
proof -
  have e: "endpoints_present (t_nodes sound_template) (t_edges sound_template)"
    by (simp add: sound_template_def endpoints_present_def mk_node_def mk_edge_def)
  have a: "endpoints_present (nodes two_nodes) (edges two_nodes)"
    by (simp add: two_nodes_def endpoints_present_def mk_node_def mk_edge_def)
  have b: "adds_only_connection library_addEdge connect_b_a (edges two_nodes)"
    by (rule library_addEdge_adds_only)
  have c: "c_source connect_b_a \<in> set (map node_id (nodes two_nodes))"
      "c_target connect_b_a \<in> set (map node_id (nodes two_nodes))"
    by (simp_all add: two_nodes_def connect_b_a_def mk_node_def)
  have d: "edges (onDeleteNode ''a'' two_nodes) = []"
    by (simp add: onDeleteNode_def two_nodes_def mk_edge_def)
  show ?thesis
    using a b c d e
      edits_keep_endpoints [OF a, of "''a''" library_addEdge connect_b_a "render_closure two_nodes"
        sound_template]
    by blast
qed

text \<open>
  Applying a template (or an imported file) whose edge has no nodes, and connecting two
  ids that are not nodes, both leave an edge without endpoints in the graph.
\<close>

theorem edits_endpoints_counterexample:
  "endpoints_present (nodes (initial_state [] [])) (edges (initial_state [] []))
   \<and> \<not> endpoints_present (nodes (onApplyTemplate dangling_template (initial_state [] [])))
          (edges (onApplyTemplate dangling_template (initial_state [] [])))
   \<and> \<not> endpoints_present
          (nodes (onConnect library_addEdge (render_closure (initial_state [] [])) connect_a_b
                    (initial_state [] [])))
          (edges (onConnect library_addEdge (render_closure (initial_state [] [])) connect_a_b
                    (initial_state [] [])))"
  by (simp add: endpoints_present_def onApplyTemplate_def dangling_template_def mk_edge_def
      onConnect_def library_addEdge_def connect_a_b_def connectionExists_def Let_def)

lemma find_in_nodes:
  "find P xs = Some x \<Longrightarrow> x \<in> set xs \<and> P x"
  by (induction xs) (auto split: if_splits)

text \<open>
  C10 (as the code has it). Duplicating an existing node appends one node and changes
  nothing else: the copy has the id \<open>type-now\<close>, status idle, the label with
  \<open>(Copy)\<close> appended and the position moved by \<open>(50, 50)\<close>; the edges are the same. The
  id is new, and ids stay unique, when no node has the id \<open>type-now\<close> yet.
\<close>

theorem duplicate_appends_copy:
  assumes "find (\<lambda>n. node_id n = nodeId) (nodes st) = Some orig"
  shows "nodes (onDuplicateNode now nodeId st) = nodes st @ [duplicate_of now orig]
    \<and> edges (onDuplicateNode now nodeId st) = edges st
    \<and> orig \<in> set (nodes st) \<and> node_id orig = nodeId
    \<and> node_id (duplicate_of now orig)
         = template_str (node_type orig) @ ''-'' @ string_of_nat now
    \<and> node_type (duplicate_of now orig) = node_type orig
    \<and> status (data (duplicate_of now orig)) = Idle
    \<and> label (data (duplicate_of now orig))
         = Some (template_str (label (data orig)) @ '' (Copy)'')
    \<and> pos_x (position (duplicate_of now orig)) = pos_x (position orig) + 50
    \<and> pos_y (position (duplicate_of now orig)) = pos_y (position orig) + 50
    \<and> config (data (duplicate_of now orig)) = config (data orig)
    \<and> enabled (data (duplicate_of now orig)) = enabled (data orig)
    \<and> (distinct (map node_id (nodes st))
        \<and> template_str (node_type orig) @ ''-'' @ string_of_nat now \<notin> set (map node_id (nodes st))
       \<longrightarrow> distinct (map node_id (nodes (onDuplicateNode now nodeId st))))"
  using assms find_in_nodes[OF assms]
  by (simp add: onDuplicateNode_def duplicate_of_def)

theorem duplicate_appends_copy_witness:
  "find (\<lambda>n. node_id n = ''action-1'') (nodes one_action) = Some (mk_node ''action-1'' ''action'')
   \<and> distinct (map node_id (nodes one_action))
   \<and> template_str (node_type (mk_node ''action-1'' ''action'')) @ ''-'' @ string_of_nat 1700000000000
        \<notin> set (map node_id (nodes one_action))
   \<and> map node_id (nodes (onDuplicateNode 1700000000000 ''action-1'' one_action))
       = [''action-1'', ''action-1700000000000'']
   \<and> distinct (map node_id (nodes (onDuplicateNode 1700000000000 ''action-1'' one_action)))
   \<and> label (data (duplicate_of 1700000000000 (mk_node ''action-1'' ''action'')))
       = Some ''action Node (Copy)''"
proof -
  have f: "find (\<lambda>n. node_id n = ''action-1'') (nodes one_action) = Some (mk_node ''action-1'' ''action'')"
    by (simp add: one_action_def mk_node_def)
  have s: "string_of_nat 1700000000000 = ''1700000000000''"
    by (simp add: string_of_nat.simps)
  have d: "distinct (map node_id (nodes one_action))"
    by (simp add: one_action_def)
  have n: "template_str (node_type (mk_node ''action-1'' ''action'')) @ ''-'' @ string_of_nat 1700000000000
        \<notin> set (map node_id (nodes one_action))"
    by (simp add: s one_action_def mk_node_def template_str_def)
  note t = duplicate_appends_copy [OF f, of 1700000000000]
  have m: "map node_id (nodes (onDuplicateNode 1700000000000 ''action-1'' one_action))
       = [''action-1'', ''action-1700000000000'']"
    using t by (simp add: s one_action_def mk_node_def template_str_def)
  have l: "label (data (duplicate_of 1700000000000 (mk_node ''action-1'' ''action'')))
       = Some ''action Node (Copy)''"
    using t by (simp add: mk_node_def template_str_def)
  show ?thesis using f d n m l t by blast
qed

text \<open>
  A node whose id is the one generated at the time of the call gets a copy with the same id.
\<close>

theorem duplicate_id_counterexample:
  "map node_id (nodes (onDuplicateNode 1700000000000 ''action-1700000000000'' clashing))
     = [''action-1700000000000'', ''action-1700000000000'']"
proof -
  have s: "string_of_nat 1700000000000 = ''1700000000000''"
    by (simp add: string_of_nat.simps)
  show ?thesis
    by (simp add: onDuplicateNode_def duplicate_of_def clashing_def mk_node_def
        template_str_def s)
qed


end
